theory Spec2Isabelle
  imports Main "HOL-Library.AList"
begin

section \<open>Strings\<close>

text \<open>
  Go strings are byte sequences; they are modelled as \<open>string\<close> (a list of
  characters). The two functions of package \<open>strings\<close> that conf.go calls on
  prefixes are written out.
\<close>

definition HasPrefix :: "string \<Rightarrow> string \<Rightarrow> bool" where
  "HasPrefix s pre = (take (length pre) s = pre)"

definition TrimPrefix :: "string \<Rightarrow> string \<Rightarrow> string" where
  "TrimPrefix s pre = (if HasPrefix s pre then drop (length pre) s else s)"

text \<open>
  \<open>strings.Split(s, sep)\<close> for a separator of one byte, the only way conf.go
  calls it: the pieces between the separators, never an empty slice.
\<close>

fun Split :: "string \<Rightarrow> char \<Rightarrow> string list" where
  "Split [] sep = [[]]"
| "Split (c # cs) sep =
     (if c = sep then [] # Split cs sep
      else (case Split cs sep of [] \<Rightarrow> [[c]] | w # ws \<Rightarrow> (c # w) # ws))"

text \<open>The decimal rendering of \<open>%d\<close> in \<open>fmt.Sprintf\<close>.\<close>

definition digit_char :: "nat \<Rightarrow> char" where
  "digit_char d = ''0123456789'' ! d"

function itoa :: "nat \<Rightarrow> string" where
  "itoa n = (if n < 10 then [digit_char n] else itoa (n div 10) @ [digit_char (n mod 10)])"
  by pat_completeness auto
termination
  by (relation "measure (\<lambda>n. n)") auto

declare itoa.simps [simp del]

section \<open>Values passed as \<open>interface{}\<close>\<close>

text \<open>
  A value handed to \<open>Set\<close> or \<open>Def\<close> is an \<open>interface{}\<close>. \<open>Set\<close> inspects
  it with \<open>reflect.ValueOf(val).Kind()\<close> and tells maps, arrays and slices from
  everything else. \<open>INil\<close> is the nil interface; booleans, integers and
  strings stand for the values of every other kind. A map is given as the list
  of its entries in the order \<open>MapKeys\<close> happens to return them (Go leaves that
  order open, so every order is an input).
\<close>

datatype iface =
    INil
  | IBool bool
  | IInt int
  | IStr string
  | MapV "(iface \<times> iface) list"
  | SliceV "iface list"
  | ArrayV "iface list"

text \<open>
  \<open>cast.ToString\<close> of github.com/spf13/cast, an external library: the text of a
  scalar; the empty string for nil and for a value it cannot cast (its error is
  dropped), which is the case of maps, slices and arrays.
\<close>

fun ToString :: "iface \<Rightarrow> string" where
  "ToString INil = []"
| "ToString (IBool b) = (if b then ''true'' else ''false'')"
| "ToString (IInt i) = (if i < 0 then CHR ''-'' # itoa (nat (- i)) else itoa (nat i))"
| "ToString (IStr s) = s"
| "ToString (MapV kvs) = []"
| "ToString (SliceV xs) = []"
| "ToString (ArrayV xs) = []"

section \<open>The flat property store\<close>

text \<open>
  \<open>type Properties struct{ m map[string]string }\<close>. The map is an association
  list with one entry per key; \<open>p.m[key] = v\<close> is \<open>AList.update\<close>, a lookup
  is \<open>map_of\<close>. The order of the list stands for the order in which Go happens
  to iterate over the map, which the language leaves open: statements about
  \<open>Keys\<close> and \<open>Group\<close> are about the set of their results.
\<close>

type_synonym Properties = "(string \<times> string) list"

definition rootKey :: string where
  "rootKey = ''$''"

definition New :: Properties where
  "New = []"

definition Keys :: "Properties \<Rightarrow> string list" where
  "Keys p = map fst p"

text \<open>
  \<open>Get(key, opts...)\<close>. A \<open>GetOption\<close> is built by \<open>Def(v)\<close> only, so the
  options are the list of the values given to \<open>Def\<close>; each one overwrites
  \<open>arg.def\<close>, which starts as nil. The result \<open>None\<close> is the nil interface,
  \<open>Some s\<close> the string \<open>s\<close>.
\<close>

definition applyGetOptions :: "iface list \<Rightarrow> iface" where
  "applyGetOptions opts = fold (\<lambda>v def. v) opts INil"

definition Get :: "Properties \<Rightarrow> string \<Rightarrow> iface list \<Rightarrow> string option" where
  "Get p key opts =
     (let key' = TrimPrefix key (rootKey @ ''.'') in
      case map_of p key' of
        Some val \<Rightarrow> Some val
      | None \<Rightarrow>
          (let def = applyGetOptions opts in
           if def \<noteq> INil then Some (ToString def) else None))"

text \<open>
  \<open>Set(key, val)\<close>: the switch on the kind of \<open>val\<close>, with the loop over the
  map entries (\<open>SetMap\<close>) and the loop over the indices \<open>i = 0, 1, ...\<close> of an
  array or slice (\<open>SetSeq\<close>) as recursive functions that pass the store on.
\<close>

fun Set_p :: "Properties \<Rightarrow> string \<Rightarrow> iface \<Rightarrow> Properties"
  and SetMap :: "Properties \<Rightarrow> string \<Rightarrow> (iface \<times> iface) list \<Rightarrow> Properties"
  and SetSeq :: "Properties \<Rightarrow> string \<Rightarrow> nat \<Rightarrow> iface list \<Rightarrow> Properties"
where
  "Set_p p key (MapV kvs) = SetMap p key kvs"
| "Set_p p key (ArrayV xs) = SetSeq p key 0 xs"
| "Set_p p key (SliceV xs) = SetSeq p key 0 xs"
| "Set_p p key INil = AList.update key (ToString INil) p"
| "Set_p p key (IBool b) = AList.update key (ToString (IBool b)) p"
| "Set_p p key (IInt i) = AList.update key (ToString (IInt i)) p"
| "Set_p p key (IStr s) = AList.update key (ToString (IStr s)) p"
| "SetMap p key [] = p"
| "SetMap p key (kv # kvs) =
     SetMap (Set_p p (key @ ''.'' @ ToString (fst kv)) (snd kv)) key kvs"
| "SetSeq p key i [] = p"
| "SetSeq p key i (x # xs) =
     SetSeq (Set_p p (key @ ''['' @ itoa i @ '']'') x) key (Suc i) xs"

text \<open>
  \<open>contain.Strings(array, val)\<close> of package contain: the index of the first
  element equal to \<open>val\<close>, or -1.
\<close>

fun StringsFrom :: "int \<Rightarrow> string list \<Rightarrow> string \<Rightarrow> int" where
  "StringsFrom i [] val = - 1"
| "StringsFrom i (s # array) val = (if s = val then i else StringsFrom (i + 1) array val)"

definition Strings :: "string list \<Rightarrow> string \<Rightarrow> int" where
  "Strings array val = StringsFrom 0 array val"

text \<open>
  \<open>Group(prefix)\<close>: the closure \<open>trimPrefix\<close> (\<open>None\<close> is its \<open>false\<close>)
  and the loop over \<open>p.Keys()\<close> that collects the first segment of every key
  under the prefix, skipping the ones it already has.
\<close>

definition trimPrefix :: "string \<Rightarrow> string \<Rightarrow> string option" where
  "trimPrefix key prefix =
     (if prefix = rootKey then Some key
      else if \<not> HasPrefix key (prefix @ ''.'') then None
      else Some (TrimPrefix key (prefix @ ''.'')))"

fun GroupLoop :: "string \<Rightarrow> string list \<Rightarrow> string list \<Rightarrow> string list" where
  "GroupLoop prefix [] groups = groups"
| "GroupLoop prefix (key # keys) groups =
     (case trimPrefix key prefix of
        None \<Rightarrow> GroupLoop prefix keys groups
      | Some s \<Rightarrow>
          (let k = hd (Split s CHR ''.'') in
           if Strings groups k \<ge> 0 then GroupLoop prefix keys groups
           else GroupLoop prefix keys (groups @ [k])))"

definition Group :: "Properties \<Rightarrow> string \<Rightarrow> string list" where
  "Group p prefix = GroupLoop prefix (Keys p) []"

section \<open>Flattening as the specification words it\<close>

text \<open>
  The leaf assignments of a value under a key, as the specification describes
  them: a field of a record under \<open>key.field\<close>, element \<open>i\<close> of a sequence under
  \<open>key[i]\<close>, down to the scalars, each with its string representation.
  \<open>storeAll\<close> stores a list of assignments one after the other, a later one
  overwriting an earlier one on the same key.
\<close>

lemma size_enumerate_elem:
  "ix \<in> set (enumerate n xs) \<Longrightarrow> size (snd ix) < Suc (size_list size xs)"
proof -
  assume a: "ix \<in> set (enumerate n xs)"
  obtain i x where ix: "ix = (i, x)" by (cases ix)
  with a have "snd ix \<in> set xs"
    by (auto simp: in_set_enumerate_eq)
  then have "size (snd ix) \<le> size_list size xs"
    by (simp add: size_list_estimation')
  then show ?thesis by simp
qed

function leaves :: "string \<Rightarrow> iface \<Rightarrow> (string \<times> string) list" where
  "leaves key (MapV kvs) =
     concat (map (\<lambda>kv. leaves (key @ ''.'' @ ToString (fst kv)) (snd kv)) kvs)"
| "leaves key (ArrayV xs) =
     concat (map (\<lambda>ix. leaves (key @ ''['' @ itoa (fst ix) @ '']'') (snd ix)) (enumerate 0 xs))"
| "leaves key (SliceV xs) =
     concat (map (\<lambda>ix. leaves (key @ ''['' @ itoa (fst ix) @ '']'') (snd ix)) (enumerate 0 xs))"
| "leaves key INil = [(key, ToString INil)]"
| "leaves key (IBool b) = [(key, ToString (IBool b))]"
| "leaves key (IInt i) = [(key, ToString (IInt i))]"
| "leaves key (IStr s) = [(key, ToString (IStr s))]"
  by pat_completeness auto
termination
proof (relation "measure (\<lambda>(key, v). size v)")
  show "wf (measure (\<lambda>(key, v). size v))" by simp
next
  fix key kvs and kv :: "iface \<times> iface"
  assume "kv \<in> set kvs"
  then have "size_prod size size kv \<le> size_list (size_prod size size) kvs"
    by (simp add: size_list_estimation')
  moreover have "size (snd kv) < size_prod size size kv"
    by (cases kv) simp
  ultimately show "((key @ ''.'' @ ToString (fst kv), snd kv), key, MapV kvs)
      \<in> measure (\<lambda>(key, v). size v)"
    by simp
next
  fix key xs and ix :: "nat \<times> iface"
  assume "ix \<in> set (enumerate 0 xs)"
  then show "((key @ ''['' @ itoa (fst ix) @ '']'', snd ix), key, ArrayV xs)
      \<in> measure (\<lambda>(key, v). size v)"
    using size_enumerate_elem [of ix 0 xs] by simp
next
  fix key xs and ix :: "nat \<times> iface"
  assume "ix \<in> set (enumerate 0 xs)"
  then show "((key @ ''['' @ itoa (fst ix) @ '']'', snd ix), key, SliceV xs)
      \<in> measure (\<lambda>(key, v). size v)"
    using size_enumerate_elem [of ix 0 xs] by simp
qed

definition storeAll :: "(string \<times> string) list \<Rightarrow> Properties \<Rightarrow> Properties" where
  "storeAll kvs p = fold (\<lambda>kv. AList.update (fst kv) (snd kv)) kvs p"

section \<open>Binding: the entry point \<open>Properties.Bind\<close>\<close>

text \<open>
  What \<open>Bind\<close> reads of package reflect. A \<open>Type\<close> is seen through
  \<open>Name()\<close>, \<open>Kind()\<close>, \<open>Elem()\<close> and \<open>String()\<close>; a \<open>Value\<close> is the
  zero Value or a value of some type, addressable or not; for a pointer
  \<open>vPointee\<close> is the value it points to (\<open>None\<close> for a nil pointer).
\<close>

datatype Kind =
    Invalid | Bool | Int | Int8 | Int16 | Int32 | Int64
  | Uint | Uint8 | Uint16 | Uint32 | Uint64 | Uintptr
  | Float32 | Float64 | Complex64 | Complex128
  | Array | Chan | Func | Interface | Map | Ptr | Slice | String | Struct
  | UnsafePointer

datatype Type = Type (tName: string) (tKind: Kind) (tElem: "Type option") (tString: string)

datatype Value = ZeroValue | Value (vType: Type) (CanAddr: bool) (vPointee: "Value option")

text \<open>
  \<open>v.Kind()\<close> is \<open>Invalid\<close> on the zero Value; \<open>v.Elem()\<close> of a nil pointer
  is the zero Value; \<open>v.Type()\<close> panics on the zero Value (\<open>None\<close> here).
\<close>

fun Kind_of :: "Value \<Rightarrow> Kind" where
  "Kind_of ZeroValue = Invalid"
| "Kind_of (Value t a pv) = tKind t"

fun Elem_of :: "Value \<Rightarrow> Value" where
  "Elem_of ZeroValue = ZeroValue"
| "Elem_of (Value t a None) = ZeroValue"
| "Elem_of (Value t a (Some pv)) = pv"

fun Type_of :: "Value \<Rightarrow> Type option" where
  "Type_of ZeroValue = None"
| "Type_of (Value t a pv) = Some t"

text \<open>
  The first argument of \<open>Bind\<close> is an \<open>interface{}\<close>: either a
  \<open>reflect.Value\<close> itself, or anything else, given as what
  \<open>reflect.ValueOf(i)\<close> returns for it (the zero Value for a nil interface).
\<close>

datatype target = IsReflectValue Value | Other Value

datatype fault = Error string | Panic string

text \<open>
  The text of the error that \<open>Bind\<close> returns for a target that is not a
  pointer; the source has it in Chinese, this is its translation.
\<close>

definition errNotPointer :: string where
  "errNotPointer = ''the object of a property binding must be a pointer''"

definition panicZeroValueType :: string where
  "panicZeroValueType = ''reflect: call of reflect.Value.Type on zero Value''"

datatype BindOption = Key string | Tag string

fun applyBindOption :: "BindOption \<Rightarrow> string \<Rightarrow> string" where
  "applyBindOption (Key key) tag = ''${'' @ key @ ''}''"
| "applyBindOption (Tag t) tag = t"

text \<open>
  \<open>Bind\<close> ends in the call \<open>bind(p, v, arg.tag, bindOption{path: s})\<close> of a
  function of another file. The model returns that call as data: the store, the
  value to bind, the tag and the path.
\<close>

record bindCall =
  bcProps :: Properties
  bcValue :: Value
  bcTag :: string
  bcPath :: string

definition bindPath :: "Type \<Rightarrow> fault + string" where
  "bindPath t =
     (let s = tName t in
      if s = [] then
        (if tKind t = Map \<or> tKind t = Slice \<or> tKind t = Array then
           (case tElem t of
              None \<Rightarrow> Inl (Panic ''reflect: Elem of invalid type'')
            | Some e \<Rightarrow> Inr (if tName e = [] then tString e else tName e))
         else Inr (tString t))
      else Inr s)"

definition Bind :: "Properties \<Rightarrow> target \<Rightarrow> BindOption list \<Rightarrow> fault + bindCall" where
  "Bind p i opts =
     (case (case i of
              IsReflectValue rv \<Rightarrow> Inr rv
            | Other ov \<Rightarrow>
                if Kind_of ov \<noteq> Ptr then Inl (Error errNotPointer) else Inr (Elem_of ov)) of
        Inl e \<Rightarrow> Inl e
      | Inr v \<Rightarrow>
          (let tag = fold applyBindOption opts (applyBindOption (Key rootKey) []) in
           case Type_of v of
             None \<Rightarrow> Inl (Panic panicZeroValueType)
           | Some t \<Rightarrow>
               (case bindPath t of
                  Inl e \<Rightarrow> Inl e
                | Inr s \<Rightarrow> Inr \<lparr>bcProps = p, bcValue = v, bcTag = tag, bcPath = s\<rparr>)))"

section \<open>The container: \<open>Go\<close> and \<open>Invoke\<close>\<close>

text \<open>
  The argument \<open>fn\<close> is seen through its type (not a function, or a function
  with its list of results) and through what calling it with its bound
  arguments does: it panics, it returns an error, or it returns its results.
  A nil \<open>fn\<close> has no type and is left out. Binding the arguments
  (\<open>arg.Bind\<close>) is taken to succeed.
\<close>

datatype outType = ErrorType | OtherType

datatype fnType = NotFuncType | FuncType "outType list"

datatype callOutcome = CallPanics string | CallFails string | CallReturns "iface list"

record fnArg =
  fnTypeOf :: fnType
  fnCall :: callOutcome

text \<open>
  Modelled from the spec: the helpers \<open>util.IsFuncType\<close>, \<open>util.ReturnNothing\<close>
  and \<open>util.ReturnOnlyError\<close> are not in the source files at hand. The
  specification has \<open>Invoke\<close> accept only functions returning nothing or
  returning only an error.
\<close>

fun IsFuncType :: "fnType \<Rightarrow> bool" where
  "IsFuncType NotFuncType = False"
| "IsFuncType (FuncType outs) = True"

fun ReturnNothing :: "fnType \<Rightarrow> bool" where
  "ReturnNothing NotFuncType = False"
| "ReturnNothing (FuncType outs) = (outs = [])"

fun ReturnOnlyError :: "fnType \<Rightarrow> bool" where
  "ReturnOnlyError NotFuncType = False"
| "ReturnOnlyError (FuncType outs) = (outs = [ErrorType])"

text \<open>
  The container as \<open>Go\<close> and \<open>Invoke\<close> see it: whether it has been refreshed,
  the counter of its wait group, the tasks launched so far, and the log.
\<close>

record Container =
  refreshed :: bool
  wg :: int
  tasks :: "fnArg list"
  logged :: "string list"

text \<open>
  Modelled from the spec: \<open>callAfterRefreshing\<close> is not in the source files at
  hand. The specification makes a call before the refresh a usage error; the
  function returns nothing, so the error can only be a panic.
\<close>

definition notRefreshed :: string where
  "notRefreshed = ''should call after refreshing''"

definition callAfterRefreshing :: "Container \<Rightarrow> fault option" where
  "callAfterRefreshing c = (if refreshed c then None else Some (Panic notRefreshed))"

text \<open>
  \<open>Go(fn, args...)\<close> returns nothing: the outcome is a panic in the caller
  (\<open>Inl\<close>) or the container with one more task launched. \<open>goTask\<close> is the body
  of the goroutine it starts, run to its end: the deferred \<open>recover\<close> logs a
  panic of the call, an error of the call is logged, and the deferred
  \<open>wg.Done()\<close> gives the counter back.
\<close>

definition Go :: "Container \<Rightarrow> fnArg \<Rightarrow> fault + Container" where
  "Go c fn =
     (case callAfterRefreshing c of
        Some f \<Rightarrow> Inl f
      | None \<Rightarrow>
          if \<not> IsFuncType (fnTypeOf fn) \<or> \<not> ReturnNothing (fnTypeOf fn)
          then Inl (Panic ''fn should be func()'')
          else Inr (c\<lparr>wg := wg c + 1, tasks := tasks c @ [fn]\<rparr>))"

definition goTask :: "Container \<Rightarrow> fnArg \<Rightarrow> Container" where
  "goTask c fn =
     (let c' = (case fnCall fn of
                  CallPanics r \<Rightarrow> c\<lparr>logged := logged c @ [r]\<rparr>
                | CallFails e \<Rightarrow> c\<lparr>logged := logged c @ [e]\<rparr>
                | CallReturns vs \<Rightarrow> c)
      in c'\<lparr>wg := wg c' - 1\<rparr>)"

text \<open>
  \<open>Invoke(fn, args...)\<close> returns \<open>([]interface{}, error)\<close>: \<open>Inl (Error e)\<close> is
  the returned error, \<open>Inl (Panic r)\<close> a panic that leaves \<open>Invoke\<close>.
\<close>

definition Invoke :: "Container \<Rightarrow> fnArg \<Rightarrow> fault + iface list" where
  "Invoke c fn =
     (case callAfterRefreshing c of
        Some f \<Rightarrow> Inl f
      | None \<Rightarrow>
          if IsFuncType (fnTypeOf fn)
             \<and> (ReturnNothing (fnTypeOf fn) \<or> ReturnOnlyError (fnTypeOf fn))
          then (case fnCall fn of
                  CallPanics r \<Rightarrow> Inl (Panic r)
                | CallFails e \<Rightarrow> Inl (Error e)
                | CallReturns vs \<Rightarrow> Inr vs)
          else Inl (Error ''fn should be func() or func()error''))"

section \<open>The placeholder resolver\<close>

text \<open>
  Modelled from the spec: \<open>Resolve\<close> is in the source, but \<open>resolveString\<close>,
  which it calls, is in a file that is not at hand. The specification gives the
  grammar (\<open>${name}\<close> or \<open>${name:=default}\<close>, the name possibly empty, the
  default possibly with references of its own) and the algorithm: scan from the
  left; at \<open>${\<close> take the span up to the balancing brace; split it at the
  first \<open>:=\<close> into name and default; look the name up in the store and, when
  it is absent, resolve the default; put the resolved spans together with the
  text between them; keep the chain of the references in progress and fail
  with a reference-cycle error when one comes back with no default to end on.
  A value found in the store is resolved in its turn (references are
  recursive). A default is used only when the name is absent from the store,
  so that is where it ends a chain: a reference to an absent name with a
  default resolves to the default, in progress or not (\<open>${a:=${a:=5}}\<close> is
  \<open>5\<close>, and the empty name of \<open>${:=b}\<close> is a name like any other); a stored
  name that comes back while its value is being resolved, and an absent name
  without default that comes back, are reference cycles. A reference with
  neither value nor default that is not in progress is a missing-key error. The
  specification has no escape for \<open>:=\<close>, so every occurrence counts, and it
  does not say what a span without its closing brace is: here it is an error.
\<close>

datatype resolveError = ErrReferenceCycle string | ErrMissingKey string | ErrUnbalanced string

text \<open>
  Modelled from the spec: \<open>findRef\<close> cuts a string at its first \<open>${\<close> into
  the text before and the text after; \<open>closeRef\<close> cuts what follows at the
  brace that balances it (\<open>depth\<close> counts the references opened inside) into
  the span and the rest; \<open>splitDef\<close> cuts a span at its first \<open>:=\<close>;
  \<open>storeKey\<close> is the key that \<open>Get\<close> looks a name up under.
\<close>

fun findRef :: "string \<Rightarrow> (string \<times> string) option" where
  "findRef [] = None"
| "findRef [c] = None"
| "findRef (c # d # cs) =
     (if c = CHR ''$'' \<and> d = CHR ''{'' then Some ([], cs)
      else map_option (\<lambda>(lit, rest). (c # lit, rest)) (findRef (d # cs)))"

fun closeRef :: "nat \<Rightarrow> string \<Rightarrow> (string \<times> string) option" where
  "closeRef depth [] = None"
| "closeRef depth (c # cs) =
     (if c = CHR ''}'' then
        (case depth of
           0 \<Rightarrow> Some ([], cs)
         | Suc d \<Rightarrow> map_option (\<lambda>(body, rest). (c # body, rest)) (closeRef d cs))
      else if c = CHR ''$'' \<and> take 1 cs = ''{'' then
        map_option (\<lambda>(body, rest). (c # CHR ''{'' # body, rest)) (closeRef (Suc depth) (drop 1 cs))
      else map_option (\<lambda>(body, rest). (c # body, rest)) (closeRef depth cs))"

fun splitDef :: "string \<Rightarrow> string \<times> string option" where
  "splitDef [] = ([], None)"
| "splitDef [c] = ([c], None)"
| "splitDef (c # d # cs) =
     (if c = CHR '':'' \<and> d = CHR ''='' then ([], Some cs)
      else (case splitDef (d # cs) of (name, def) \<Rightarrow> (c # name, def)))"

definition storeKey :: "string \<Rightarrow> string" where
  "storeKey name = TrimPrefix name (rootKey @ ''.'')"

lemma findRef_length: "findRef s = Some (lit, rest) \<Longrightarrow> length lit + length rest + 2 = length s"
  by (induction s arbitrary: lit rule: findRef.induct) (auto split: if_splits)

lemma closeRef_length: "closeRef d s = Some (body, rest) \<Longrightarrow> length body + length rest < length s"
proof (induction d s arbitrary: body rule: closeRef.induct)
  case (1 depth)
  then show ?case by simp
next
  case (2 depth c cs)
  show ?case
  proof (cases "c = CHR ''}''")
    case True
    with 2 show ?thesis by (cases depth) (auto split: if_splits)
  next
    case False
    note nc = this
    show ?thesis
    proof (cases "c = CHR ''$'' \<and> take 1 cs = ''{''")
      case True
      then obtain cs' where cs: "cs = CHR ''{'' # cs'" by (cases cs) auto
      with 2 nc True show ?thesis by auto
    next
      case False
      with 2 nc show ?thesis by auto
    qed
  qed
qed

lemma splitDef_length: "splitDef s = (name, Some d) \<Longrightarrow> length name + length d + 2 = length s"
  by (induction s arbitrary: name rule: splitDef.induct) (auto split: if_splits prod.splits)

lemma Get_Some_key: "Get p name [] = Some val \<Longrightarrow> storeKey name \<in> set (Keys p)"
  by (auto simp: Get_def storeKey_def Keys_def applyGetOptions_def Let_def
      split: option.splits dest: map_of_SomeD intro: rev_image_eqI)

text \<open>
  Modelled from the spec: the resolver itself; \<open>chain\<close> holds the store keys
  of the references in progress.
\<close>

function resolveString :: "Properties \<Rightarrow> string list \<Rightarrow> string \<Rightarrow> resolveError + string" where
  "resolveString p chain s =
     (case findRef s of
        None \<Rightarrow> Inr s
      | Some (lit, after) \<Rightarrow>
          (case closeRef 0 after of
             None \<Rightarrow> Inl (ErrUnbalanced s)
           | Some (body, rest) \<Rightarrow>
               (case splitDef body of (name, def) \<Rightarrow>
                  (case (case Get p name [] of
                           Some val \<Rightarrow>
                             if storeKey name \<in> set chain
                             then Inl (ErrReferenceCycle (storeKey name))
                             else resolveString p (storeKey name # chain) val
                         | None \<Rightarrow>
                             (case def of
                                Some d \<Rightarrow> resolveString p (storeKey name # chain) d
                              | None \<Rightarrow>
                                  if storeKey name \<in> set chain
                                  then Inl (ErrReferenceCycle (storeKey name))
                                  else Inl (ErrMissingKey (storeKey name)))) of
                     Inl e \<Rightarrow> Inl e
                   | Inr s1 \<Rightarrow>
                       (case resolveString p chain rest of
                          Inl e \<Rightarrow> Inl e
                        | Inr s2 \<Rightarrow> Inr (lit @ s1 @ s2))))))"
  by pat_completeness auto
termination
proof (relation "measures [\<lambda>(p, chain, s). card (set (Keys p) - set chain), \<lambda>(p, chain, s). length s]")
  show "wf (measures [\<lambda>(p, chain, s). card (set (Keys p) - set chain), \<lambda>(p, chain, s). length s])"
    by simp
next
  fix p chain s x2 lit after x2a body rest name def val
  assume "Get p name [] = Some val" "storeKey name \<notin> set chain"
  then have "storeKey name \<in> set (Keys p) - set chain"
    by (simp add: Get_Some_key)
  then have "card (set (Keys p) - set (storeKey name # chain)) < card (set (Keys p) - set chain)"
    by (metis Diff_insert List.finite_set card_Diff1_less finite_Diff list.simps(15))
  then show "((p, storeKey name # chain, val), p, chain, s)
      \<in> measures [\<lambda>(p, chain, s). card (set (Keys p) - set chain), \<lambda>(p, chain, s). length s]"
    by simp
next
  fix p chain s x2 lit after x2a body rest name def d
  assume a: "findRef s = Some x2" "(lit, after) = x2" "closeRef 0 after = Some x2a"
    "(body, rest) = x2a" "(name, def) = splitDef body" "def = Some d"
  have "card (set (Keys p) - set (storeKey name # chain)) \<le> card (set (Keys p) - set chain)"
    by (rule card_mono) auto
  moreover have "length d < length s"
    using findRef_length [of s lit after] closeRef_length [of 0 after body rest]
      splitDef_length [of body name d] a by auto
  ultimately show "((p, storeKey name # chain, d), p, chain, s)
      \<in> measures [\<lambda>(p, chain, s). card (set (Keys p) - set chain), \<lambda>(p, chain, s). length s]"
    by auto
next
  fix p chain s x2 lit after x2a body rest
  assume a: "findRef s = Some x2" "(lit, after) = x2" "closeRef 0 after = Some x2a"
    "(body, rest) = x2a"
  have "length rest < length s"
    using findRef_length [of s lit after] closeRef_length [of 0 after body rest] a by auto
  then show "((p, chain, rest), p, chain, s)
      \<in> measures [\<lambda>(p, chain, s). card (set (Keys p) - set chain), \<lambda>(p, chain, s). length s]"
    by simp
qed

definition Resolve :: "Properties \<Rightarrow> string \<Rightarrow> resolveError + string" where
  "Resolve p s = resolveString p [] s"

declare resolveString.simps [simp del]

text \<open>
  References that form a cycle. \<open>firstRef\<close> reads the first reference of a
  string: the text before it, its name, its default and the text after it.
  \<open>resolveRef\<close> is what \<open>resolveString\<close> does with one reference.
  \<open>refAt p chain j s\<close> is reference number \<open>j\<close> of \<open>s\<close>, counted from 0 along
  the string, provided every reference before it resolves. A reference path
  \<open>j # js\<close> from a string picks reference \<open>j\<close> of the string, goes on with
  \<open>js\<close> in what that reference stands for (the stored value of its name or,
  when the name is absent, its default), and ends at a reference that comes
  back: its name is in progress and is stored, or is absent without default.
  \<open>cyclePath\<close> checks a path and returns the key it comes back to.
\<close>

definition firstRef ::
  "string \<Rightarrow> (string \<times> string \<times> string option \<times> string) option" where
  "firstRef s =
     (case findRef s of
        None \<Rightarrow> None
      | Some (lit, after) \<Rightarrow>
          (case closeRef 0 after of
             None \<Rightarrow> None
           | Some (body, rest) \<Rightarrow>
               (case splitDef body of (name, def) \<Rightarrow> Some (lit, name, def, rest))))"

definition resolveRef ::
  "Properties \<Rightarrow> string list \<Rightarrow> string \<Rightarrow> string option \<Rightarrow> resolveError + string" where
  "resolveRef p chain name def =
     (case Get p name [] of
        Some val \<Rightarrow>
          if storeKey name \<in> set chain then Inl (ErrReferenceCycle (storeKey name))
          else resolveString p (storeKey name # chain) val
      | None \<Rightarrow>
          (case def of
             Some d \<Rightarrow> resolveString p (storeKey name # chain) d
           | None \<Rightarrow>
               if storeKey name \<in> set chain then Inl (ErrReferenceCycle (storeKey name))
               else Inl (ErrMissingKey (storeKey name))))"

fun refAt ::
  "Properties \<Rightarrow> string list \<Rightarrow> nat \<Rightarrow> string \<Rightarrow> (string \<times> string option) option" where
  "refAt p chain 0 s =
     (case firstRef s of
        None \<Rightarrow> None
      | Some (lit, name, def, rest) \<Rightarrow> Some (name, def))"
| "refAt p chain (Suc j) s =
     (case firstRef s of
        None \<Rightarrow> None
      | Some (lit, name, def, rest) \<Rightarrow>
          (case resolveRef p chain name def of
             Inl e \<Rightarrow> None
           | Inr s1 \<Rightarrow> refAt p chain j rest))"

fun cyclePath :: "Properties \<Rightarrow> string list \<Rightarrow> string \<Rightarrow> nat list \<Rightarrow> string option" where
  "cyclePath p chain s [] = None"
| "cyclePath p chain s (j # js) =
     (case refAt p chain j s of
        None \<Rightarrow> None
      | Some (name, def) \<Rightarrow>
          (case Get p name [] of
             Some val \<Rightarrow>
               if storeKey name \<in> set chain
               then (if js = [] then Some (storeKey name) else None)
               else cyclePath p (storeKey name # chain) val js
           | None \<Rightarrow>
               (case def of
                  Some d \<Rightarrow> cyclePath p (storeKey name # chain) d js
                | None \<Rightarrow>
                    if storeKey name \<in> set chain \<and> js = [] then Some (storeKey name)
                    else None)))"

section \<open>Reconstruction by groups\<close>

text \<open>
  Modelled from the spec: the reconstruction of the leaf keys of a store with
  \<open>Group\<close> is in the binder, which is not in the source files at hand. The
  specification has it recurse per discovered \<open>Group\<close> entry, building the path
  of a child from the current path and the entry; below the root marker the
  path of a child is the entry itself. A path that is a key of the store is a
  leaf key. The walk starts at the root marker; its depth is bounded by the
  length of the longest key, which no path of segments of a key exceeds.
\<close>

definition childPath :: "string \<Rightarrow> string \<Rightarrow> string" where
  "childPath prefix c = (if prefix = rootKey then c else prefix @ ''.'' @ c)"

fun regroupFrom :: "nat \<Rightarrow> Properties \<Rightarrow> string \<Rightarrow> string list" where
  "regroupFrom 0 p prefix = []"
| "regroupFrom (Suc n) p prefix =
     concat (map (\<lambda>c. (if childPath prefix c \<in> set (Keys p) then [childPath prefix c] else [])
                        @ regroupFrom n p (childPath prefix c))
                 (Group p prefix))"

definition regroup :: "Properties \<Rightarrow> string list" where
  "regroup p = regroupFrom (Suc (fold max (map length (Keys p)) 0)) p rootKey"

section \<open>Properties of the store\<close>

subsection \<open>Helper lemmas\<close>

lemma storeAll_append: "storeAll (xs @ ys) p = storeAll ys (storeAll xs p)"
  by (simp add: storeAll_def)

lemma storeAll_Nil: "storeAll [] p = p"
  by (simp add: storeAll_def)

lemma storeAll_single: "storeAll [(k, v)] p = AList.update k v p"
  by (simp add: storeAll_def)

lemma Set_p_storeAll_aux:
  "Set_p p key v = storeAll (leaves key v) p"
  "SetMap p key kvs =
     storeAll (concat (map (\<lambda>kv. leaves (key @ ''.'' @ ToString (fst kv)) (snd kv)) kvs)) p"
  "SetSeq p key i xs =
     storeAll (concat (map (\<lambda>ix. leaves (key @ ''['' @ itoa (fst ix) @ '']'') (snd ix))
       (enumerate i xs))) p"
proof (induction p key v and p key kvs and p key i xs rule: Set_p_SetMap_SetSeq.induct)
qed (simp_all add: storeAll_append storeAll_Nil storeAll_single)

lemma map_of_storeAll: "map_of (storeAll kvs p) = map_of p ++ map_of (rev kvs)"
proof (induction kvs arbitrary: p)
  case Nil
  show ?case by (simp add: storeAll_def)
next
  case (Cons kv kvs)
  have "storeAll (kv # kvs) p = storeAll kvs (AList.update (fst kv) (snd kv) p)"
    by (simp add: storeAll_def)
  then show ?case
    by (simp add: Cons.IH update_conv' map_add_def fun_eq_iff split: option.splits)
qed

lemma Keys_storeAll: "set (Keys (storeAll kvs p)) = set (Keys p) \<union> fst ` set kvs"
proof (induction kvs arbitrary: p)
  case Nil
  show ?case by (simp add: storeAll_def)
next
  case (Cons kv kvs)
  have "storeAll (kv # kvs) p = storeAll kvs (AList.update (fst kv) (snd kv) p)"
    by (simp add: storeAll_def)
  moreover have "set (Keys (AList.update (fst kv) (snd kv) p)) = insert (fst kv) (set (Keys p))"
    unfolding Keys_def using dom_update [of "fst kv" "snd kv" p] by (simp add: dom_map_of_conv_image_fst)
  ultimately show ?case
    by (simp add: Cons.IH)
qed

lemma distinct_storeAll: "distinct (Keys p) \<Longrightarrow> distinct (Keys (storeAll kvs p))"
  by (induction kvs arbitrary: p) (simp_all add: storeAll_def Keys_def distinct_update)

lemma applyGetOptions_last: "applyGetOptions opts = (if opts = [] then INil else last opts)"
proof -
  have "fold (\<lambda>v def. v) opts d = (if opts = [] then d else last opts)" for d :: iface
    by (induction opts arbitrary: d) auto
  then show ?thesis by (simp add: applyGetOptions_def)
qed

lemma TrimPrefix_append: "TrimPrefix (pre @ k) pre = k"
  by (simp add: TrimPrefix_def HasPrefix_def)

lemma TrimPrefix_no_prefix: "\<not> HasPrefix key pre \<Longrightarrow> TrimPrefix key pre = key"
  by (simp add: TrimPrefix_def)

subsection \<open>Set\<close>

text \<open>
  Claim C1. For every key and value, \<open>Set\<close> flattens the value recursively: the
  store it returns is the store it was given with the leaf assignments of the
  value stored one after the other, where a map field lies under \<open>key.field\<close>,
  element \<open>i\<close> of a slice or array under \<open>key[i]\<close>, and a scalar is stored as
  its string. Looking a key up afterwards gives the last leaf assigned to it,
  whatever was stored there before, and the old entry when no leaf has that key;
  the keys of the store are the old keys and the leaf keys.
\<close>

theorem Set_flattens:
  "Set_p p key v = storeAll (leaves key v) p
   \<and> map_of (Set_p p key v) k =
       (case map_of (rev (leaves key v)) k of Some s \<Rightarrow> Some s | None \<Rightarrow> map_of p k)
   \<and> set (Keys (Set_p p key v)) = set (Keys p) \<union> fst ` set (leaves key v)"
  by (simp add: Set_p_storeAll_aux(1) map_of_storeAll Keys_storeAll map_add_def)

theorem Set_flattens_witness:
  "Set_p [(''k.a[0]'', ''old''), (''z'', ''keep'')] ''k''
     (MapV [(IStr ''a'', SliceV [IInt 1, IInt 12]), (IStr ''b'', IBool True)])
   = [(''k.a[0]'', ''1''), (''z'', ''keep''), (''k.a[1]'', ''12''), (''k.b'', ''true'')]
   \<and> leaves ''k'' (MapV [(IStr ''a'', SliceV [IInt 1, IInt 12]), (IStr ''b'', IBool True)])
   = [(''k.a[0]'', ''1''), (''k.a[1]'', ''12''), (''k.b'', ''true'')]"
  using Set_flattens [of "[(''k.a[0]'', ''old''), (''z'', ''keep'')]" "''k''"
      "MapV [(IStr ''a'', SliceV [IInt 1, IInt 12]), (IStr ''b'', IBool True)]" "''z''"]
  by (simp add: storeAll_def itoa.simps digit_char_def enumerate_eq_zip upt_rec)

text \<open>
  Claim C9. For every key, \<open>Set\<close> with an empty map, an empty slice or an empty
  array stores no entry at all: the store is returned as it was. On a new store
  \<open>Get\<close> of the key then returns the absent marker and \<open>Keys\<close> is empty, so no
  key and no sub-key stands for the empty composite.
\<close>

theorem Set_empty_composite:
  "Set_p p key (MapV []) = p \<and> Set_p p key (SliceV []) = p \<and> Set_p p key (ArrayV []) = p
   \<and> Get (Set_p New key (MapV [])) key [] = None
   \<and> Get (Set_p New key (SliceV [])) key [] = None
   \<and> Get (Set_p New key (ArrayV [])) key [] = None
   \<and> Keys (Set_p New key (MapV [])) = []
   \<and> Keys (Set_p New key (SliceV [])) = []
   \<and> Keys (Set_p New key (ArrayV [])) = []"
  by (simp add: New_def Get_def Keys_def applyGetOptions_def)

theorem Set_empty_composite_witness:
  "Set_p [(''a'', ''1'')] ''b'' (MapV []) = [(''a'', ''1'')]
   \<and> Get (Set_p New ''b'' (SliceV [])) ''b'' [] = None
   \<and> Keys (Set_p New ''b'' (ArrayV [])) = []"
  using Set_empty_composite [of "[(''a'', ''1'')]" "''b''"] by simp

subsection \<open>Get\<close>

text \<open>
  Claim C2. \<open>Get\<close> strips one leading \<open>$.\<close> from the key (and leaves a key
  without it as it is), then looks the key up exactly: a stored string is
  returned; when the key is absent and a default was given with \<open>Def\<close> (the last
  one counts, and a nil default is no default), the result is the default as a
  string; otherwise it is the absent marker \<open>None\<close>, which is not the empty
  string \<open>Some []\<close>.
\<close>

theorem Get_lookup:
  "(map_of p (TrimPrefix key ''$.'') = Some val \<longrightarrow> Get p key opts = Some val)
   \<and> (map_of p (TrimPrefix key ''$.'') = None \<and> opts \<noteq> [] \<and> last opts \<noteq> INil
        \<longrightarrow> Get p key opts = Some (ToString (last opts)))
   \<and> (map_of p (TrimPrefix key ''$.'') = None \<and> (opts = [] \<or> last opts = INil)
        \<longrightarrow> Get p key opts = None)
   \<and> TrimPrefix (''$.'' @ k) ''$.'' = k
   \<and> (\<not> HasPrefix key ''$.'' \<longrightarrow> TrimPrefix key ''$.'' = key)"
proof -
  have strip: "TrimPrefix (''$.'' @ k) ''$.'' = k"
    by (rule TrimPrefix_append)
  have keep: "\<not> HasPrefix key ''$.'' \<longrightarrow> TrimPrefix key ''$.'' = key"
    by (simp add: TrimPrefix_no_prefix)
  have get: "Get p key opts =
      (case map_of p (TrimPrefix key ''$.'') of
         Some val \<Rightarrow> Some val
       | None \<Rightarrow> if opts = [] \<or> last opts = INil then None else Some (ToString (last opts)))"
    by (simp add: Get_def rootKey_def applyGetOptions_last Let_def split: option.splits)
  show ?thesis
    using strip keep by (simp add: get)
qed

theorem Get_lookup_witness:
  "Get [(''a.b'', '''')] ''$.a.b'' [] = Some ''''
   \<and> Get [(''a.b'', '''')] ''a.b'' [IInt 5] = Some ''''
   \<and> Get [(''a.b'', '''')] ''A.b'' [IInt 5] = Some ''5''
   \<and> Get [(''a.b'', '''')] ''A.b'' [IInt 5, INil] = None
   \<and> Get [(''a.b'', '''')] ''A.b'' [] = None"
  using Get_lookup [of "[(''a.b'', '''')]" "''$.a.b''" "''''" "[]" "''a.b''"]
    Get_lookup [of "[(''a.b'', '''')]" "''a.b''" "''''" "[IInt 5]" "''a.b''"]
    Get_lookup [of "[(''a.b'', '''')]" "''A.b''" "''''" "[IInt 5]" "''a.b''"]
    Get_lookup [of "[(''a.b'', '''')]" "''A.b''" "''''" "[IInt 5, INil]" "''a.b''"]
    Get_lookup [of "[(''a.b'', '''')]" "''A.b''" "''''" "[]" "''a.b''"]
  by (simp add: TrimPrefix_def HasPrefix_def itoa.simps digit_char_def)

section \<open>Properties of \<open>Bind\<close>\<close>

text \<open>
  Claim C10, as stated, fails: \<open>Bind\<close> does not proceed for any
  \<open>reflect.Value\<close>; given the zero Value it panics in \<open>v.Type()\<close> before it
  reaches the binder.
\<close>

theorem Bind_zero_Value_counterexample:
  "Bind [] (IsReflectValue ZeroValue) [] = Inl (Panic panicZeroValueType)"
  by (simp add: Bind_def)

text \<open>
  Claim C10, amended. When the first argument of \<open>Bind\<close> is a
  \<open>reflect.Value\<close>, the pointer check is not made. For every value other than
  the zero Value, addressable or not, of a named or an unnamed type, \<open>Bind\<close>
  goes on to the binder with the store, the very value it was given, the tag of
  the options and the path read from the type: the name of the type, or for an
  unnamed map, slice or array the name of its element type (the text of the
  element type when that has no name either), or else the text of the type. On
  the zero Value it panics. It never returns the must-be-a-pointer error on
  that path: the error is returned only for an argument that is not a
  \<open>reflect.Value\<close> and whose kind is not \<open>Ptr\<close>.
\<close>

theorem Bind_reflect_Value_bypass:
  "((n \<noteq> [] \<or> (k \<noteq> Map \<and> k \<noteq> Slice \<and> k \<noteq> Array)) \<longrightarrow>
      Bind p (IsReflectValue (Value (Type n k eo str) a pv)) opts =
        Inr \<lparr>bcProps = p, bcValue = Value (Type n k eo str) a pv,
             bcTag = fold applyBindOption opts ''${$}'',
             bcPath = (if n = [] then str else n)\<rparr>)
   \<and> ((k = Map \<or> k = Slice \<or> k = Array) \<longrightarrow>
      Bind p (IsReflectValue (Value (Type [] k (Some e) str) a pv)) opts =
        Inr \<lparr>bcProps = p, bcValue = Value (Type [] k (Some e) str) a pv,
             bcTag = fold applyBindOption opts ''${$}'',
             bcPath = (if tName e = [] then tString e else tName e)\<rparr>)
   \<and> Bind p (IsReflectValue ZeroValue) opts = Inl (Panic panicZeroValueType)
   \<and> Bind p (IsReflectValue v) opts \<noteq> Inl (Error errNotPointer)
   \<and> (Bind p i opts = Inl (Error errNotPointer) \<longrightarrow> (\<exists>ov. i = Other ov \<and> Kind_of ov \<noteq> Ptr))"
proof -
  have a: "(n \<noteq> [] \<or> (k \<noteq> Map \<and> k \<noteq> Slice \<and> k \<noteq> Array)) \<longrightarrow>
      Bind p (IsReflectValue (Value (Type n k eo str) a pv)) opts =
        Inr \<lparr>bcProps = p, bcValue = Value (Type n k eo str) a pv,
             bcTag = fold applyBindOption opts ''${$}'',
             bcPath = (if n = [] then str else n)\<rparr>"
    by (simp add: Bind_def Let_def bindPath_def rootKey_def)
  have b: "(k = Map \<or> k = Slice \<or> k = Array) \<longrightarrow>
      Bind p (IsReflectValue (Value (Type [] k (Some e) str) a pv)) opts =
        Inr \<lparr>bcProps = p, bcValue = Value (Type [] k (Some e) str) a pv,
             bcTag = fold applyBindOption opts ''${$}'',
             bcPath = (if tName e = [] then tString e else tName e)\<rparr>"
    by (simp add: Bind_def Let_def bindPath_def rootKey_def)
  have c: "Bind p (IsReflectValue ZeroValue) opts = Inl (Panic panicZeroValueType)"
    by (simp add: Bind_def)
  have d: "Bind p (IsReflectValue v) opts \<noteq> Inl (Error errNotPointer)"
    by (auto simp: Bind_def Let_def bindPath_def split: option.splits sum.splits if_splits)
  have e: "Bind p i opts = Inl (Error errNotPointer) \<longrightarrow> (\<exists>ov. i = Other ov \<and> Kind_of ov \<noteq> Ptr)"
  proof (cases i)
    case (IsReflectValue rv)
    then show ?thesis
      by (auto simp: Bind_def Let_def bindPath_def split: option.splits sum.splits if_splits)
  next
    case (Other ov)
    then show ?thesis
      by (auto simp: Bind_def Let_def bindPath_def split: option.splits sum.splits if_splits)
  qed
  from a b c d e show ?thesis by blast
qed

theorem Bind_reflect_Value_bypass_witness:
  "Bind [] (IsReflectValue (Value (Type ''Config'' Struct None ''main.Config'') False None)) [Key ''db'']
     = Inr \<lparr>bcProps = [], bcValue = Value (Type ''Config'' Struct None ''main.Config'') False None,
            bcTag = ''${db}'', bcPath = ''Config''\<rparr>
   \<and> Bind [] (IsReflectValue (Value (Type [] Slice (Some (Type [] Ptr None ''*main.Config''))
              ''[]*main.Config'') True None)) []
     = Inr \<lparr>bcProps = [],
            bcValue = Value (Type [] Slice (Some (Type [] Ptr None ''*main.Config''))
              ''[]*main.Config'') True None,
            bcTag = ''${$}'', bcPath = ''*main.Config''\<rparr>
   \<and> Bind [] (IsReflectValue (Value (Type [] Struct None ''struct { A int }'') False None)) []
     = Inr \<lparr>bcProps = [], bcValue = Value (Type [] Struct None ''struct { A int }'') False None,
            bcTag = ''${$}'', bcPath = ''struct { A int }''\<rparr>
   \<and> Bind [] (Other (Value (Type ''Config'' Struct None ''main.Config'') False None)) [Key ''db'']
     = Inl (Error errNotPointer)"
  using Bind_reflect_Value_bypass [where p = "[]" and n = "''Config''" and k = Struct
      and eo = None and str = "''main.Config''" and a = False and pv = None
      and opts = "[Key ''db'']" and e = "Type [] Ptr None ''*main.Config''"
      and v = "Value (Type ''Config'' Struct None ''main.Config'') False None"
      and i = "Other (Value (Type ''Config'' Struct None ''main.Config'') False None)"]
    Bind_reflect_Value_bypass [where p = "[]" and n = "[]" and k = Slice
      and eo = "Some (Type [] Ptr None ''*main.Config'')" and str = "''[]*main.Config''"
      and a = True and pv = None and opts = "[]" and e = "Type [] Ptr None ''*main.Config''"
      and v = ZeroValue and i = "Other ZeroValue"]
    Bind_reflect_Value_bypass [where p = "[]" and n = "[]" and k = Struct
      and eo = None and str = "''struct { A int }''" and a = False and pv = None
      and opts = "[]" and e = "Type [] Ptr None ''*main.Config''"
      and v = ZeroValue and i = "Other ZeroValue"]
  by (simp add: Bind_def)

text \<open>
  Claim C7, as stated, fails: a \<open>reflect.Value\<close> of a struct that is neither a
  pointer nor addressable is not refused; \<open>Bind\<close> goes on to the binder with
  it.
\<close>

theorem Bind_not_addressable_counterexample:
  "Kind_of (Value (Type ''Config'' Struct None ''main.Config'') False None) \<noteq> Ptr
   \<and> \<not> CanAddr (Value (Type ''Config'' Struct None ''main.Config'') False None)
   \<and> Bind [] (IsReflectValue (Value (Type ''Config'' Struct None ''main.Config'') False None)) []
     = Inr \<lparr>bcProps = [], bcValue = Value (Type ''Config'' Struct None ''main.Config'') False None,
            bcTag = ''${$}'', bcPath = ''Config''\<rparr>"
  by (simp add: Bind_def bindPath_def rootKey_def)

text \<open>
  Claim C7, amended. For every target that is not a \<open>reflect.Value\<close> and whose
  kind is not \<open>Ptr\<close> (a nil interface included), \<open>Bind\<close> returns the
  must-be-a-pointer error at once: the binder is not called, so nothing is
  written to the target.
\<close>

theorem Bind_non_pointer:
  "Kind_of v \<noteq> Ptr \<Longrightarrow> Bind p (Other v) opts = Inl (Error errNotPointer)"
  by (simp add: Bind_def)

theorem Bind_non_pointer_witness:
  "Bind [(''a'', ''1'')] (Other (Value (Type ''Config'' Struct None ''main.Config'') False None)) []
     = Inl (Error errNotPointer)
   \<and> Bind [(''a'', ''1'')] (Other ZeroValue) [Tag ''${a}''] = Inl (Error errNotPointer)"
  using Bind_non_pointer [of "Value (Type ''Config'' Struct None ''main.Config'') False None"
      "[(''a'', ''1'')]" "[]"]
    Bind_non_pointer [of ZeroValue "[(''a'', ''1'')]" "[Tag ''${a}'']"]
  by simp

section \<open>Properties of \<open>Go\<close> and \<open>Invoke\<close>\<close>

text \<open>
  Claim C6, as stated, fails: \<open>Go\<close> has no result to return an error in; given
  an argument that is not a function, on a refreshed container, it panics in its
  caller.
\<close>

theorem Go_non_function_counterexample:
  "Go \<lparr>refreshed = True, wg = 0, tasks = [], logged = []\<rparr>
      \<lparr>fnTypeOf = NotFuncType, fnCall = CallReturns []\<rparr>
   = Inl (Panic ''fn should be func()'')"
  by (simp add: Go_def callAfterRefreshing_def)

text \<open>
  Claim C6, amended. On a refreshed container: \<open>Go\<close> panics in its caller with
  \<open>fn should be func()\<close> for every argument that is not a function without
  results, and launches a task (one more on the wait group) for every other
  argument; \<open>Invoke\<close> returns the error \<open>fn should be func() or func()error\<close>
  to its caller for every argument that is not a function without results or
  with an error as its only result; a panic of the call inside a launched task
  is recovered and logged, and the task counts down the wait group.
\<close>

theorem Go_Invoke_precondition:
  "refreshed c \<Longrightarrow>
   (\<not> (IsFuncType (fnTypeOf fn) \<and> ReturnNothing (fnTypeOf fn))
      \<longrightarrow> Go c fn = Inl (Panic ''fn should be func()''))
   \<and> (\<not> (IsFuncType (fnTypeOf fn) \<and> (ReturnNothing (fnTypeOf fn) \<or> ReturnOnlyError (fnTypeOf fn)))
      \<longrightarrow> Invoke c fn = Inl (Error ''fn should be func() or func()error''))
   \<and> (IsFuncType (fnTypeOf fn) \<and> ReturnNothing (fnTypeOf fn)
      \<longrightarrow> Go c fn = Inr (c\<lparr>wg := wg c + 1, tasks := tasks c @ [fn]\<rparr>))
   \<and> (fnCall fn = CallPanics r
      \<longrightarrow> goTask c fn = c\<lparr>logged := logged c @ [r], wg := wg c - 1\<rparr>)"
  by (auto simp: Go_def Invoke_def goTask_def callAfterRefreshing_def)

theorem Go_Invoke_precondition_witness:
  "Go \<lparr>refreshed = True, wg = 0, tasks = [], logged = []\<rparr>
      \<lparr>fnTypeOf = FuncType [OtherType], fnCall = CallReturns [IInt 1]\<rparr>
     = Inl (Panic ''fn should be func()'')
   \<and> Invoke \<lparr>refreshed = True, wg = 0, tasks = [], logged = []\<rparr>
      \<lparr>fnTypeOf = FuncType [OtherType], fnCall = CallReturns [IInt 1]\<rparr>
     = Inl (Error ''fn should be func() or func()error'')
   \<and> Go \<lparr>refreshed = True, wg = 0, tasks = [], logged = []\<rparr>
      \<lparr>fnTypeOf = FuncType [], fnCall = CallPanics ''boom''\<rparr>
     = Inr \<lparr>refreshed = True, wg = 1,
            tasks = [\<lparr>fnTypeOf = FuncType [], fnCall = CallPanics ''boom''\<rparr>], logged = []\<rparr>
   \<and> goTask \<lparr>refreshed = True, wg = 1,
            tasks = [\<lparr>fnTypeOf = FuncType [], fnCall = CallPanics ''boom''\<rparr>], logged = []\<rparr>
        \<lparr>fnTypeOf = FuncType [], fnCall = CallPanics ''boom''\<rparr>
     = \<lparr>refreshed = True, wg = 0,
        tasks = [\<lparr>fnTypeOf = FuncType [], fnCall = CallPanics ''boom''\<rparr>], logged = [''boom'']\<rparr>"
  using Go_Invoke_precondition [of "\<lparr>refreshed = True, wg = 0, tasks = [], logged = []\<rparr>"
      "\<lparr>fnTypeOf = FuncType [OtherType], fnCall = CallReturns [IInt 1]\<rparr>" "''x''"]
    Go_Invoke_precondition [of "\<lparr>refreshed = True, wg = 0, tasks = [], logged = []\<rparr>"
      "\<lparr>fnTypeOf = FuncType [], fnCall = CallPanics ''boom''\<rparr>" "''boom''"]
    Go_Invoke_precondition [of "\<lparr>refreshed = True, wg = 1,
            tasks = [\<lparr>fnTypeOf = FuncType [], fnCall = CallPanics ''boom''\<rparr>], logged = []\<rparr>"
      "\<lparr>fnTypeOf = FuncType [], fnCall = CallPanics ''boom''\<rparr>" "''boom''"]
  by simp

section \<open>Properties of the resolver\<close>

text \<open>
  Claim C5. On a store with no entries \<open>Resolve\<close> of \<open>${x:=5}\<close> is \<open>5\<close>, the
  default; on a store where \<open>x\<close> was set to 7 it is \<open>7\<close>, the stored value.
\<close>

theorem Resolve_default_fallback:
  "Resolve New ''${x:=5}'' = Inr ''5''
   \<and> Resolve (Set_p New ''x'' (IInt 7)) ''${x:=5}'' = Inr ''7''"
  by (simp add: Resolve_def New_def resolveString.simps storeKey_def TrimPrefix_def HasPrefix_def
      rootKey_def Get_def applyGetOptions_def itoa.simps digit_char_def)

text \<open>
  A default ends a chain where the name is absent, also for a name in progress
  and for the empty name; without a default a name that comes back is a cycle,
  and a name that does not is a missing key.
\<close>

lemma Resolve_terminating_default:
  "Resolve [] ''${a:=${a:=5}}'' = Inr ''5'' \<and> Resolve [] ''${:=${:=x}}'' = Inr ''x''
   \<and> Resolve [] ''${a:=${a}}'' = Inl (ErrReferenceCycle ''a'')
   \<and> Resolve [] ''${a}'' = Inl (ErrMissingKey ''a'')"
  by (simp add: Resolve_def resolveString.simps storeKey_def TrimPrefix_def HasPrefix_def
      rootKey_def Get_def applyGetOptions_def)

lemma firstRef_SomeD:
  "firstRef s = Some (lit, name, def, rest) \<Longrightarrow>
   \<exists>after body. findRef s = Some (lit, after) \<and> closeRef 0 after = Some (body, rest)
     \<and> splitDef body = (name, def)"
  by (auto simp: firstRef_def split: option.splits prod.splits)

lemma resolveString_first:
  assumes "firstRef s = Some (lit, name, def, rest)"
  shows "resolveString p chain s =
     (case resolveRef p chain name def of
        Inl e \<Rightarrow> Inl e
      | Inr s1 \<Rightarrow>
          (case resolveString p chain rest of
             Inl e \<Rightarrow> Inl e
           | Inr s2 \<Rightarrow> Inr (lit @ s1 @ s2)))"
proof -
  from firstRef_SomeD [OF assms] obtain after body where
    f: "findRef s = Some (lit, after)" and c: "closeRef 0 after = Some (body, rest)"
    and sp: "splitDef body = (name, def)"
    by blast
  show ?thesis
    by (subst resolveString.simps) (simp add: f c sp resolveRef_def)
qed

lemma resolveString_no_first:
  "firstRef s = None \<Longrightarrow>
   resolveString p chain s = Inr s \<or> resolveString p chain s = Inl (ErrUnbalanced s)"
  by (subst (1 2) resolveString.simps) (auto simp: firstRef_def split: option.splits prod.splits)

lemma refAt_error:
  "refAt p chain j s = Some (name, def) \<Longrightarrow> resolveRef p chain name def = Inl e
   \<Longrightarrow> resolveString p chain s = Inl e"
proof (induction j arbitrary: s)
  case 0
  then obtain lit rest where "firstRef s = Some (lit, name, def, rest)"
    by (auto split: option.splits)
  with 0 show ?case by (simp add: resolveString_first)
next
  case (Suc j)
  then obtain lit n d rest s1 where f: "firstRef s = Some (lit, n, d, rest)"
    and r: "resolveRef p chain n d = Inr s1" and a: "refAt p chain j rest = Some (name, def)"
    by (auto split: option.splits sum.splits)
  from Suc.IH [OF a Suc.prems(2)] have "resolveString p chain rest = Inl e" .
  with f r show ?case by (simp add: resolveString_first)
qed

lemma cyclePath_fails:
  "cyclePath p chain s js = Some k \<Longrightarrow> resolveString p chain s = Inl (ErrReferenceCycle k)"
proof (induction js arbitrary: chain s)
  case Nil
  then show ?case by simp
next
  case (Cons j js)
  from Cons.prems obtain name def where at: "refAt p chain j s = Some (name, def)"
    by (auto split: option.splits)
  have "resolveRef p chain name def = Inl (ErrReferenceCycle k)"
  proof (cases "Get p name []")
    case (Some val)
    show ?thesis
    proof (cases "storeKey name \<in> set chain")
      case True
      with Cons.prems at Some show ?thesis
        by (auto simp: resolveRef_def split: if_splits)
    next
      case False
      with Cons.prems at Some have "cyclePath p (storeKey name # chain) val js = Some k"
        by simp
      then have "resolveString p (storeKey name # chain) val = Inl (ErrReferenceCycle k)"
        by (rule Cons.IH)
      with Some False show ?thesis by (simp add: resolveRef_def)
    qed
  next
    case None
    show ?thesis
    proof (cases def)
      case (Some d)
      with Cons.prems at None have "cyclePath p (storeKey name # chain) d js = Some k"
        by simp
      then have "resolveString p (storeKey name # chain) d = Inl (ErrReferenceCycle k)"
        by (rule Cons.IH)
      with None Some show ?thesis by (simp add: resolveRef_def)
    next
      case N: None
      with Cons.prems at None show ?thesis
        by (auto simp: resolveRef_def split: if_splits)
    qed
  qed
  with at show ?case by (rule refAt_error)
qed


lemma cycle_error_path:
  "resolveString p chain s = Inl (ErrReferenceCycle k) \<Longrightarrow> \<exists>js. cyclePath p chain s js = Some k"
proof (induction p chain s rule: resolveString.induct)
  case (1 p chain s)
  show ?case
  proof (cases "firstRef s")
    case None
    from resolveString_no_first [OF None, of p chain] "1.prems" show ?thesis by auto
  next
    case (Some quad)
    then obtain lit name "def" rest where fr: "firstRef s = Some (lit, name, def, rest)"
      by (cases quad) auto
    from firstRef_SomeD [OF fr] obtain after body where
      f: "findRef s = Some (lit, after)" and c: "closeRef 0 after = Some (body, rest)"
      and sp: "splitDef body = (name, def)"
      by blast
    have at0: "refAt p chain 0 s = Some (name, def)"
      using fr by simp
    show ?thesis
    proof (cases "resolveRef p chain name def")
      case (Inl e)
      with "1.prems" fr have e: "resolveRef p chain name def = Inl (ErrReferenceCycle k)"
        by (simp add: resolveString_first)
      show ?thesis
      proof (cases "Get p name []")
        case G: (Some val)
        show ?thesis
        proof (cases "storeKey name \<in> set chain")
          case True
          with e G have "k = storeKey name" by (simp add: resolveRef_def)
          with at0 G True have "cyclePath p chain s [0] = Some k" by simp
          then show ?thesis ..
        next
          case False
          with e G have "resolveString p (storeKey name # chain) val = Inl (ErrReferenceCycle k)"
            by (simp add: resolveRef_def)
          with "1.IH"(2) [OF f refl c refl sp [symmetric] G False]
          obtain js where "cyclePath p (storeKey name # chain) val js = Some k" by blast
          with at0 G False have "cyclePath p chain s (0 # js) = Some k" by simp
          then show ?thesis ..
        qed
      next
        case G: None
        show ?thesis
        proof (cases "def")
          case D: (Some d)
          with e G have "resolveString p (storeKey name # chain) d = Inl (ErrReferenceCycle k)"
            by (simp add: resolveRef_def)
          with "1.IH"(1) [OF f refl c refl sp [symmetric] G D]
          obtain js where "cyclePath p (storeKey name # chain) d js = Some k" by blast
          with at0 G D have "cyclePath p chain s (0 # js) = Some k" by simp
          then show ?thesis ..
        next
          case D: None
          with e G have "storeKey name \<in> set chain \<and> k = storeKey name"
            by (auto simp: resolveRef_def split: if_splits)
          with at0 G D have "cyclePath p chain s [0] = Some k" by simp
          then show ?thesis ..
        qed
      qed
    next
      case (Inr s1)
      with "1.prems" fr have r: "resolveString p chain rest = Inl (ErrReferenceCycle k)"
        by (simp add: resolveString_first split: sum.splits)
      have "\<exists>js. cyclePath p chain rest js = Some k"
      proof (rule "1.IH"(3) [OF f refl c refl sp [symmetric] _ r])
        show "(case Get p name [] of
                 None \<Rightarrow>
                   (case def of
                      None \<Rightarrow>
                        if storeKey name \<in> set chain then Inl (ErrReferenceCycle (storeKey name))
                        else Inl (ErrMissingKey (storeKey name))
                    | Some d \<Rightarrow> resolveString p (storeKey name # chain) d)
               | Some val \<Rightarrow>
                   if storeKey name \<in> set chain then Inl (ErrReferenceCycle (storeKey name))
                   else resolveString p (storeKey name # chain) val) = Inr s1"
          using Inr by (simp add: resolveRef_def)
      qed
      then obtain js where js: "cyclePath p chain rest js = Some k" by blast
      then obtain j js' where "js = j # js'" by (cases js) auto
      with js fr Inr have "cyclePath p chain s (Suc j # js') = Some k" by simp
      then show ?thesis ..
    qed
  qed
qed

text \<open>
  Claim C4. \<open>resolveString\<close> is a total function (its termination is proved
  with its definition), so \<open>Resolve\<close> returns on every input. For every store
  and every input string from which a reference path comes back to a key in
  progress with no default to end on, \<open>Resolve\<close> returns the reference-cycle
  error for that key; it returns that error for no other input; and \<open>Resolve\<close>
  of \<open>${a:=${b}}\<close>, on the store that maps \<open>b\<close> to \<open>${a}\<close>, returns the
  reference-cycle error.
\<close>

theorem Resolve_cycle:
  "(cyclePath p [] s js = Some k \<longrightarrow> Resolve p s = Inl (ErrReferenceCycle k))
   \<and> (Resolve p s = Inl (ErrReferenceCycle k) \<longrightarrow> (\<exists>js. cyclePath p [] s js = Some k))
   \<and> Resolve [(''b'', ''${a}'')] ''${a:=${b}}'' = Inl (ErrReferenceCycle ''a'')"
proof -
  have ex: "Resolve [(''b'', ''${a}'')] ''${a:=${b}}'' = Inl (ErrReferenceCycle ''a'')"
    by (simp add: Resolve_def resolveString.simps storeKey_def TrimPrefix_def HasPrefix_def
        rootKey_def Get_def applyGetOptions_def)
  show ?thesis
    unfolding Resolve_def using ex cyclePath_fails [of p "[]" s js k] cycle_error_path [of p "[]" s k]
    by (simp add: Resolve_def)
qed

theorem Resolve_cycle_witness:
  "cyclePath [(''b'', ''${a}'')] [] ''${a:=${b}}'' [0, 0, 0] = Some ''a''
   \<and> Resolve [(''a'', ''x${a}'')] ''${a}'' = Inl (ErrReferenceCycle ''a'')
   \<and> Resolve [(''x'', ''${a}''), (''a'', ''${a}'')] ''${x}'' = Inl (ErrReferenceCycle ''a'')
   \<and> Resolve [(''a'', ''${b}''), (''b'', ''${a}'')] ''p${a}q'' = Inl (ErrReferenceCycle ''a'')
   \<and> Resolve [(''ok'', ''fine''), (''a'', ''<${a}>'')] ''${ok} and ${a}''
       = Inl (ErrReferenceCycle ''a'')"
proof -
  have 1: "cyclePath [(''b'', ''${a}'')] [] ''${a:=${b}}'' [0, 0, 0] = Some ''a''"
    by (simp add: storeKey_def TrimPrefix_def HasPrefix_def rootKey_def Get_def
        applyGetOptions_def firstRef_def)
  have 2: "cyclePath [(''a'', ''x${a}'')] [] ''${a}'' [0, 0] = Some ''a''"
    by (simp add: storeKey_def TrimPrefix_def HasPrefix_def rootKey_def Get_def
        applyGetOptions_def firstRef_def)
  have 3: "cyclePath [(''x'', ''${a}''), (''a'', ''${a}'')] [] ''${x}'' [0, 0, 0] = Some ''a''"
    by (simp add: storeKey_def TrimPrefix_def HasPrefix_def rootKey_def Get_def
        applyGetOptions_def firstRef_def)
  have 4: "cyclePath [(''a'', ''${b}''), (''b'', ''${a}'')] [] ''p${a}q'' [0, 0, 0] = Some ''a''"
    by (simp add: storeKey_def TrimPrefix_def HasPrefix_def rootKey_def Get_def
        applyGetOptions_def firstRef_def)
  have 5: "cyclePath [(''ok'', ''fine''), (''a'', ''<${a}>'')] [] ''${ok} and ${a}'' [1, 0]
      = Some ''a''"
    by (simp add: storeKey_def TrimPrefix_def HasPrefix_def rootKey_def Get_def
        applyGetOptions_def firstRef_def resolveRef_def resolveString.simps)
  show ?thesis
    using 1 2 3 4 5
      Resolve_cycle [of "[(''a'', ''x${a}'')]" "''${a}''" "[0, 0]" "''a''"]
      Resolve_cycle [of "[(''x'', ''${a}''), (''a'', ''${a}'')]" "''${x}''" "[0, 0, 0]" "''a''"]
      Resolve_cycle [of "[(''a'', ''${b}''), (''b'', ''${a}'')]" "''p${a}q''" "[0, 0, 0]" "''a''"]
      Resolve_cycle [of "[(''ok'', ''fine''), (''a'', ''<${a}>'')]" "''${ok} and ${a}''"
        "[1, 0]" "''a''"]
    by blast
qed

section \<open>Properties of \<open>Group\<close> and of the reconstruction\<close>

lemma Split_not_Nil: "Split s sep \<noteq> []"
  by (induction s) (auto split: list.splits)

lemma hd_Split: "hd (Split s sep) = takeWhile (\<lambda>c. c \<noteq> sep) s"
  by (induction s) (auto split: list.splits simp: Split_not_Nil)

lemma StringsFrom_mem: "0 \<le> i \<Longrightarrow> (0 \<le> StringsFrom i array val) = (val \<in> set array)"
  by (induction array arbitrary: i) auto

lemma Strings_mem: "(0 \<le> Strings array val) = (val \<in> set array)"
  by (simp add: Strings_def StringsFrom_mem)

lemma set_GroupLoop:
  "set (GroupLoop prefix keys groups) =
     set groups \<union> {hd (Split s CHR ''.'') | key s. key \<in> set keys \<and> trimPrefix key prefix = Some s}"
proof (induction keys arbitrary: groups)
  case Nil
  show ?case by simp
next
  case (Cons key keys)
  show ?case
  proof (cases "trimPrefix key prefix")
    case None
    then show ?thesis by (auto simp: Cons.IH)
  next
    case (Some s)
    then show ?thesis
      by (auto simp: Cons.IH Let_def Strings_mem)
  qed
qed

lemma set_Group:
  "set (Group p prefix) =
     {hd (Split s CHR ''.'') | key s. key \<in> set (Keys p) \<and> trimPrefix key prefix = Some s}"
  by (simp add: Group_def set_GroupLoop)

lemma regroupFrom_sound: "set (regroupFrom n p prefix) \<subseteq> set (Keys p)"
  by (induction n arbitrary: prefix) auto

lemma trimPrefix_child:
  "prefix \<noteq> rootKey \<Longrightarrow> trimPrefix (prefix @ ''.'' @ rest) prefix = Some rest"
  by (simp add: trimPrefix_def HasPrefix_def TrimPrefix_def)

lemma segment_split:
  "s = takeWhile (\<lambda>c. c \<noteq> sep) s \<or>
   (\<exists>rest. s = takeWhile (\<lambda>c. c \<noteq> sep) s @ [sep] @ rest \<and> length rest < length s)"
proof (cases "sep \<in> set s")
  case False
  then have "takeWhile (\<lambda>c. c \<noteq> sep) s = s"
    by (intro takeWhile_eq_all_conv [THEN iffD2]) auto
  from this [symmetric] show ?thesis by (rule disjI1)
next
  case True
  then have "dropWhile (\<lambda>c. c \<noteq> sep) s \<noteq> []" by auto
  moreover have "hd (dropWhile (\<lambda>c. c \<noteq> sep) s) = sep"
    using True hd_dropWhile [of "\<lambda>c. c \<noteq> sep" s] by auto
  ultimately have d: "dropWhile (\<lambda>c. c \<noteq> sep) s = sep # tl (dropWhile (\<lambda>c. c \<noteq> sep) s)"
    by (metis list.collapse)
  have "s = takeWhile (\<lambda>c. c \<noteq> sep) s @ dropWhile (\<lambda>c. c \<noteq> sep) s" by simp
  with d have e: "s = takeWhile (\<lambda>c. c \<noteq> sep) s @ [sep] @ tl (dropWhile (\<lambda>c. c \<noteq> sep) s)"
    by simp
  then have "length s = length (takeWhile (\<lambda>c. c \<noteq> sep) s) + 1 + length (tl (dropWhile (\<lambda>c. c \<noteq> sep) s))"
    by (metis length_append add.assoc length_Cons list.size(3) One_nat_def Suc_eq_plus1)
  then have "length (tl (dropWhile (\<lambda>c. c \<noteq> sep) s)) < length s" by simp
  with e show ?thesis by blast
qed

lemma regroupFrom_below:
  assumes "prefix @ ''.'' @ rest \<in> set (Keys p)" "prefix \<noteq> rootKey" "length rest < n"
  shows "prefix @ ''.'' @ rest \<in> set (regroupFrom n p prefix)"
  using assms
proof (induction n arbitrary: prefix rest)
  case 0
  then show ?case by simp
next
  case (Suc n)
  let ?key = "prefix @ ''.'' @ rest"
  let ?c = "takeWhile (\<lambda>c. c \<noteq> CHR ''.'') rest"
  have tp: "trimPrefix ?key prefix = Some rest"
    using Suc.prems(2) by (rule trimPrefix_child)
  have cin: "?c \<in> set (Group p prefix)"
    using Suc.prems(1) tp by (auto simp: set_Group hd_Split)
  have cp: "childPath prefix ?c = prefix @ ''.'' @ ?c"
    using Suc.prems(2) by (simp add: childPath_def)
  from segment_split [of rest "CHR ''.''"]
  have "?key \<in> set ((if childPath prefix ?c \<in> set (Keys p) then [childPath prefix ?c] else [])
            @ regroupFrom n p (childPath prefix ?c))"
  proof
    assume "rest = ?c"
    then have "childPath prefix ?c = ?key" using cp by simp
    then show ?thesis using Suc.prems(1) by simp
  next
    assume "\<exists>rest'. rest = ?c @ [CHR ''.''] @ rest' \<and> length rest' < length rest"
    then obtain rest' where r: "rest = ?c @ [CHR ''.''] @ rest'" and l: "length rest' < length rest"
      by blast
    have k: "?key = (prefix @ ''.'' @ ?c) @ ''.'' @ rest'"
      using r by (metis append.assoc)
    have "(prefix @ ''.'' @ ?c) @ ''.'' @ rest' \<in> set (regroupFrom n p (prefix @ ''.'' @ ?c))"
    proof (rule Suc.IH)
      show "(prefix @ ''.'' @ ?c) @ ''.'' @ rest' \<in> set (Keys p)"
        using Suc.prems(1) k by simp
      show "prefix @ ''.'' @ ?c \<noteq> rootKey"
        by (cases prefix) (auto simp: rootKey_def)
      show "length rest' < n" using l Suc.prems(3) by simp
    qed
    then show ?thesis using k cp by simp
  qed
  with cin show ?case by auto
qed

lemma regroupFrom_root:
  assumes "key \<in> set (Keys p)" "takeWhile (\<lambda>c. c \<noteq> CHR ''.'') key \<noteq> rootKey" "length key < n"
  shows "key \<in> set (regroupFrom n p rootKey)"
proof (cases n)
  case 0
  with assms show ?thesis by simp
next
  case (Suc m)
  let ?c = "takeWhile (\<lambda>c. c \<noteq> CHR ''.'') key"
  have tp: "trimPrefix key rootKey = Some key"
    by (simp add: trimPrefix_def)
  have cin: "?c \<in> set (Group p rootKey)"
    using assms(1) tp by (auto simp: set_Group hd_Split)
  have cp: "childPath rootKey ?c = ?c"
    by (simp add: childPath_def)
  from segment_split [of key "CHR ''.''"]
  have "key \<in> set ((if childPath rootKey ?c \<in> set (Keys p) then [childPath rootKey ?c] else [])
            @ regroupFrom m p (childPath rootKey ?c))"
  proof
    assume "key = ?c"
    then show ?thesis using assms(1) cp by simp
  next
    assume "\<exists>rest. key = ?c @ [CHR ''.''] @ rest \<and> length rest < length key"
    then obtain rest where r: "key = ?c @ [CHR ''.''] @ rest" and l: "length rest < length key"
      by blast
    have "?c @ ''.'' @ rest \<in> set (regroupFrom m p ?c)"
    proof (rule regroupFrom_below)
      show "?c @ ''.'' @ rest \<in> set (Keys p)" using assms(1) r by simp
      show "?c \<noteq> rootKey" by (rule assms(2))
      show "length rest < m" using l assms(3) Suc by simp
    qed
    then show ?thesis using r cp by simp
  qed
  with cin show ?thesis unfolding Suc by auto
qed

lemma length_le_fold_max: "x \<in> set xs \<Longrightarrow> x \<le> fold max xs (m::nat)"
proof (induction xs arbitrary: m)
  case Nil
  then show ?case by simp
next
  case (Cons y ys)
  have mono: "m \<le> fold max ys m" for m :: nat
    by (induction ys arbitrary: m) (auto intro: order_trans [OF max.cobounded2])
  from Cons show ?case
    using mono [of "max y m"] by auto
qed

lemma regroup_complete:
  assumes "\<forall>key \<in> set (Keys p). takeWhile (\<lambda>c. c \<noteq> CHR ''.'') key \<noteq> rootKey"
  shows "set (regroup p) = set (Keys p)"
proof
  show "set (regroup p) \<subseteq> set (Keys p)"
    unfolding regroup_def by (rule regroupFrom_sound)
  show "set (Keys p) \<subseteq> set (regroup p)"
  proof
    fix key
    assume k: "key \<in> set (Keys p)"
    then have "length key \<le> fold max (map length (Keys p)) 0"
      by (intro length_le_fold_max) simp
    then have "length key < Suc (fold max (map length (Keys p)) 0)" by simp
    with k assms show "key \<in> set (regroup p)"
      unfolding regroup_def by (intro regroupFrom_root) auto
  qed
qed

lemma leaf_key_shape:
  "ks \<in> set (leaves key v) \<Longrightarrow>
   \<exists>suf. fst ks = key @ suf \<and> (suf = [] \<or> hd suf = CHR ''.'' \<or> hd suf = CHR ''['')"
proof (induction key v arbitrary: ks rule: leaves.induct)
  case (1 key kvs)
  then obtain kv where kv: "kv \<in> set kvs"
    and m: "ks \<in> set (leaves (key @ ''.'' @ ToString (fst kv)) (snd kv))"
    by auto
  from "1.IH" [OF kv m] obtain suf where "fst ks = (key @ ''.'' @ ToString (fst kv)) @ suf"
    by blast
  then have "fst ks = key @ (''.'' @ ToString (fst kv) @ suf)" by simp
  then show ?case by (metis append_Cons list.sel(1))
next
  case (2 key xs)
  then obtain ix where ix: "ix \<in> set (enumerate 0 xs)"
    and m: "ks \<in> set (leaves (key @ ''['' @ itoa (fst ix) @ '']'') (snd ix))"
    by auto
  from "2.IH" [OF ix m] obtain suf where "fst ks = (key @ ''['' @ itoa (fst ix) @ '']'') @ suf"
    by blast
  then have "fst ks = key @ (''['' @ itoa (fst ix) @ '']'' @ suf)" by simp
  then show ?case by (metis append_Cons list.sel(1))
next
  case (3 key xs)
  then obtain ix where ix: "ix \<in> set (enumerate 0 xs)"
    and m: "ks \<in> set (leaves (key @ ''['' @ itoa (fst ix) @ '']'') (snd ix))"
    by auto
  from "3.IH" [OF ix m] obtain suf where "fst ks = (key @ ''['' @ itoa (fst ix) @ '']'') @ suf"
    by blast
  then have "fst ks = key @ (''['' @ itoa (fst ix) @ '']'' @ suf)" by simp
  then show ?case by (metis append_Cons list.sel(1))
qed auto

lemma first_segment_extend:
  assumes "takeWhile (\<lambda>c. c \<noteq> CHR ''.'') key \<noteq> rootKey"
    "suf = [] \<or> hd suf = CHR ''.'' \<or> hd suf = CHR ''[''"
  shows "takeWhile (\<lambda>c. c \<noteq> CHR ''.'') (key @ suf) \<noteq> rootKey"
proof (cases "CHR ''.'' \<in> set key")
  case True
  then have "takeWhile (\<lambda>c. c \<noteq> CHR ''.'') (key @ suf) = takeWhile (\<lambda>c. c \<noteq> CHR ''.'') key"
    by (induction key) auto
  with assms(1) show ?thesis by simp
next
  case False
  then have all: "takeWhile (\<lambda>c. c \<noteq> CHR ''.'') key = key"
    by (intro takeWhile_eq_all_conv [THEN iffD2]) auto
  from False have app: "takeWhile (\<lambda>c. c \<noteq> CHR ''.'') (key @ suf)
      = key @ takeWhile (\<lambda>c. c \<noteq> CHR ''.'') suf"
    by (induction key) auto
  show ?thesis
  proof (cases suf)
    case Nil
    with assms(1) show ?thesis by simp
  next
    case (Cons c cs)
    with assms(2) have "c = CHR ''.'' \<or> c = CHR ''[''" by simp
    then show ?thesis
    proof
      assume "c = CHR ''.''"
      then show ?thesis using app Cons assms(1) all by simp
    next
      assume "c = CHR ''[''"
      then have "takeWhile (\<lambda>c. c \<noteq> CHR ''.'') (key @ suf)
          = key @ CHR ''['' # takeWhile (\<lambda>c. c \<noteq> CHR ''.'') cs"
        using app Cons by simp
      then show ?thesis by (cases key) (auto simp: rootKey_def)
    qed
  qed
qed

lemma Keys_Set_New: "set (Keys (Set_p New key v)) = fst ` set (leaves key v)"
  by (simp add: Set_p_storeAll_aux(1) Keys_storeAll) (simp add: Keys_def New_def)

lemma first_segment_leaves:
  assumes "hd (Split key CHR ''.'') \<noteq> rootKey" "k \<in> set (Keys (Set_p New key v))"
  shows "takeWhile (\<lambda>c. c \<noteq> CHR ''.'') k \<noteq> rootKey"
proof -
  from assms(2) obtain ks where ks: "ks \<in> set (leaves key v)" and k: "k = fst ks"
    by (auto simp: Keys_Set_New)
  from leaf_key_shape [OF ks] obtain suf where
    "fst ks = key @ suf" "suf = [] \<or> hd suf = CHR ''.'' \<or> hd suf = CHR ''[''"
    by blast
  with assms(1) k show ?thesis
    by (simp add: hd_Split first_segment_extend)
qed

text \<open>
  Claim C3, as stated, fails: under the key \<open>$\<close>, the root marker, \<open>Set\<close>
  stores the leaf key \<open>$.a\<close>, but \<open>Group\<close> reads the prefix \<open>$\<close> as the root
  and returns the segment \<open>$\<close> again, never \<open>a\<close>; the reconstruction finds no
  leaf key.
\<close>

theorem Set_Group_root_key_counterexample:
  "Keys (Set_p New ''$'' (MapV [(IStr ''a'', IInt 1)])) = [''$.a'']
   \<and> Group (Set_p New ''$'' (MapV [(IStr ''a'', IInt 1)])) ''$'' = [''$'']
   \<and> regroup (Set_p New ''$'' (MapV [(IStr ''a'', IInt 1)])) = []"
  by (simp add: New_def Keys_def regroup_def Group_def trimPrefix_def childPath_def rootKey_def
      HasPrefix_def TrimPrefix_def Strings_def)

text \<open>
  Claim C3, amended. For every value and every key whose first segment is not
  the root marker \<open>$\<close>, \<open>Set\<close> on a new store followed by the reconstruction
  with \<open>Group\<close> recovers exactly the keys of the store, which are the leaf keys
  of the value; and \<open>Group\<close> of \<open>db\<close> over the keys \<open>db.one.url\<close> and
  \<open>db.two.url\<close> is the set of \<open>one\<close> and \<open>two\<close>.
\<close>

theorem Set_Group_roundtrip:
  "(hd (Split key CHR ''.'') \<noteq> rootKey \<longrightarrow>
      set (regroup (Set_p New key v)) = set (Keys (Set_p New key v))
      \<and> set (Keys (Set_p New key v)) = fst ` set (leaves key v))
   \<and> set (Group [(''db.one.url'', a), (''db.two.url'', b)] ''db'') = {''one'', ''two''}"
proof -
  have "set (regroup (Set_p New key v)) = set (Keys (Set_p New key v))"
    if "hd (Split key CHR ''.'') \<noteq> rootKey"
    using that by (intro regroup_complete) (auto dest: first_segment_leaves)
  moreover have "set (Group [(''db.one.url'', a), (''db.two.url'', b)] ''db'') = {''one'', ''two''}"
    by (simp add: Group_def Keys_def trimPrefix_def rootKey_def HasPrefix_def TrimPrefix_def
        Strings_def)
  ultimately show ?thesis
    by (simp add: Keys_Set_New)
qed

theorem Set_Group_roundtrip_witness:
  "set (regroup (Set_p New ''db''
      (MapV [(IStr ''one'', MapV [(IStr ''url'', IStr ''u1'')]),
             (IStr ''two'', MapV [(IStr ''url'', IStr ''u2''), (IStr ''ports'', SliceV [IInt 80])])])))
   = {''db.one.url'', ''db.two.url'', ''db.two.ports[0]''}
   \<and> set (Group [(''db.one.url'', ''u1''), (''db.two.url'', ''u2'')] ''db'') = {''one'', ''two''}"
  using Set_Group_roundtrip [of "''db''"
      "MapV [(IStr ''one'', MapV [(IStr ''url'', IStr ''u1'')]),
             (IStr ''two'', MapV [(IStr ''url'', IStr ''u2''), (IStr ''ports'', SliceV [IInt 80])])]"
      "''u1''" "''u2''"]
  by (simp add: rootKey_def New_def Keys_def itoa.simps digit_char_def)

end
